theory Spec2Isabelle
  imports Main "HOL-Library.Log_Nat"
begin

section \<open>Data model of \<open>q1.py\<close>\<close>

text \<open>
  A neuron is the dictionary \<open>{"id": _, "state": _, "threshold": _}\<close>.  Weights, thresholds
  and the received-signal accumulator are Python floats; the simulator only ever adds them
  (\<open>+=\<close>), starts from \<open>0.0\<close> and compares them (\<open>>=\<close>).  The model is therefore polymorphic in
  the number type \<open>'w\<close>, asking only for the syntactic classes \<open>zero\<close>, \<open>plus\<close> and \<open>ord\<close>:
  nothing about associativity or rounding is assumed unless a theorem says so.  The type
  \<open>pyfloat\<close> below instantiates \<open>'w\<close> with IEEE-754 binary64 arithmetic.
  The key \<open>"id"\<close> is the field \<open>nid\<close>.
\<close>

datatype py_error = IndexError | ValueError | ZeroDivisionError

record 'w neuron =
  nid :: int
  state :: int
  threshold :: 'w

type_synonym 'w edge = "int \<times> int \<times> 'w"

type_synonym 'w adjacency = "(int \<times> 'w) list list"

text \<open>
  Python list subscripts: \<open>xs[i]\<close> with \<open>-len(xs) \<le> i < 0\<close> counts from the end,
  any other index outside \<open>0 .. len(xs) - 1\<close> raises \<open>IndexError\<close>.
  \<open>py_index n i\<close> is the position that subscript \<open>i\<close> denotes in a list of length \<open>n\<close>.
\<close>

definition py_index :: "nat \<Rightarrow> int \<Rightarrow> nat option" where
  "py_index n i =
     (let j = (if i < 0 then int n + i else i)
      in if 0 \<le> j \<and> j < int n then Some (nat j) else None)"

section \<open>Python floats\<close>

text \<open>
  A Python float is an IEEE-754 binary64 value: a finite number \<open>m * 2^e\<close> with
  \<open>\<bar>m\<bar> < 2^53\<close> and \<open>-1074 \<le> e \<le> 971\<close>, an infinity, or NaN.  Finite values are kept
  as the rational they denote (the two zeros are one value: the simulator only adds and
  compares, which cannot tell them apart).  Addition is the exact sum rounded to the nearest
  representable value, ties to the even significand, overflowing to an infinity.
\<close>

datatype pyfloat = Finite rat | PosInf | NegInf | NaN

text \<open>\<open>ilog2 q\<close> is \<open>\<lfloor>log\<^sub>2 q\<rfloor>\<close> for a positive rational \<open>q\<close>.\<close>

definition ilog2 :: "rat \<Rightarrow> int" where
  "ilog2 q = (let (n, d) = quotient_of q; k = bitlen n - bitlen d
              in if 2 powi k \<le> q then k else k - 1)"

definition round_half_even :: "rat \<Rightarrow> int" where
  "round_half_even x =
     (let f = \<lfloor>x\<rfloor>; r = x - of_int f
      in if r < 1 / 2 then f else if 1 / 2 < r then f + 1 else if even f then f else f + 1)"

definition round_double :: "rat \<Rightarrow> pyfloat" where
  "round_double q =
     (if q = 0 then Finite 0
      else let a = \<bar>q\<bar>; e = max (ilog2 a - 52) (- 1074);
               v = of_int (round_half_even (a / 2 powi e)) * 2 powi e
           in if 2 powi 1024 \<le> v then (if 0 < q then PosInf else NegInf)
              else Finite (if 0 < q then v else - v))"

fun float_add :: "pyfloat \<Rightarrow> pyfloat \<Rightarrow> pyfloat" where
  "float_add (Finite x) (Finite y) = round_double (x + y)"
| "float_add NaN _ = NaN"
| "float_add _ NaN = NaN"
| "float_add PosInf NegInf = NaN"
| "float_add NegInf PosInf = NaN"
| "float_add PosInf _ = PosInf"
| "float_add _ PosInf = PosInf"
| "float_add NegInf _ = NegInf"
| "float_add _ NegInf = NegInf"

text \<open>\<open>float_le x y\<close> is Python's \<open>x <= y\<close>: false whenever an operand is NaN.\<close>

fun float_le :: "pyfloat \<Rightarrow> pyfloat \<Rightarrow> bool" where
  "float_le (Finite x) (Finite y) = (x \<le> y)"
| "float_le NaN _ = False"
| "float_le _ NaN = False"
| "float_le NegInf _ = True"
| "float_le _ PosInf = True"
| "float_le _ _ = False"

instantiation pyfloat :: "{zero, plus, ord}"
begin

definition zero_pyfloat :: pyfloat where
  "zero_pyfloat = Finite 0"

definition plus_pyfloat :: "pyfloat \<Rightarrow> pyfloat \<Rightarrow> pyfloat" where
  "plus_pyfloat = float_add"

definition less_eq_pyfloat :: "pyfloat \<Rightarrow> pyfloat \<Rightarrow> bool" where
  "less_eq_pyfloat = float_le"

definition less_pyfloat :: "pyfloat \<Rightarrow> pyfloat \<Rightarrow> bool" where
  "less_pyfloat x y = (float_le x y \<and> x \<noteq> y)"

instance ..

end

section \<open>Baseline tick: \<open>steps\<close>\<close>

text \<open>
  Phase 2 of \<open>steps\<close>, the loop \<open>for a, b, w in connections\<close>:
  \<open>if neurons[a-1]["state"] == 1: received[b-1] += w\<close>.
\<close>

fun send :: "'w::plus neuron list \<Rightarrow> 'w list \<Rightarrow> 'w edge list \<Rightarrow> py_error + 'w list" where
  "send neurons received [] = Inr received"
| "send neurons received ((a, b, w) # connections) =
     (case py_index (length neurons) (a - 1) of
        None \<Rightarrow> Inl IndexError
      | Some j \<Rightarrow>
          if state (neurons ! j) = 1 then
            (case py_index (length received) (b - 1) of
               None \<Rightarrow> Inl IndexError
             | Some k \<Rightarrow> send neurons (received[k := received ! k + w]) connections)
          else send neurons received connections)"

text \<open>
  Phase 3 (shared verbatim by \<open>steps\<close> and \<open>step_fast\<close>):
  \<open>new_states[i] = 1 if received[i] >= neurons[i]["threshold"] else 0\<close> for \<open>i in range(M)\<close>.
\<close>

definition decide :: "'w::ord neuron list \<Rightarrow> 'w list \<Rightarrow> int list" where
  "decide neurons received =
     map (\<lambda>i. if threshold (neurons ! i) \<le> received ! i then 1 else 0) [0..<length neurons]"

text \<open>Phase 4: \<open>neurons[i]["state"] = new_states[i]\<close> for \<open>i in range(M)\<close>.\<close>

definition commit :: "'w neuron list \<Rightarrow> int list \<Rightarrow> 'w neuron list" where
  "commit neurons new_states =
     map (\<lambda>i. (neurons ! i)\<lparr>state := new_states ! i\<rparr>) [0..<length neurons]"

text \<open>
  \<open>steps\<close> mutates the neuron dictionaries and returns the list of their states; the model
  returns the neurons after the call together with the outcome.  An exception can only be
  raised in phase 2, before anything is written, so the neurons are then as they were.
  (The \<open>debug\<close> flag only prints the accumulator and is always \<open>False\<close> in the drivers.)
\<close>

definition steps ::
  "'w::{zero,plus,ord} neuron list \<Rightarrow> 'w edge list \<Rightarrow> 'w neuron list \<times> (py_error + int list)" where
  "steps neurons connections =
     (case send neurons (replicate (length neurons) 0) connections of
        Inl e \<Rightarrow> (neurons, Inl e)
      | Inr received \<Rightarrow>
          (let neurons' = commit neurons (decide neurons received)
           in (neurons', Inr (map state neurons'))))"

section \<open>Aggregated adjacency: \<open>build_out_edges\<close>\<close>

text \<open>
  \<open>d[v] += w\<close> on a \<open>defaultdict(float)\<close>: a missing key reads as \<open>0.0\<close> and is appended to
  the insertion order, a present key keeps its place.  The dictionary is kept as the list
  of its items in insertion order, which is what \<open>list(edges.items())\<close> returns.
\<close>

fun dict_add :: "(int \<times> 'w::{zero,plus}) list \<Rightarrow> int \<Rightarrow> 'w \<Rightarrow> (int \<times> 'w) list" where
  "dict_add [] v w = [(v, 0 + w)]"
| "dict_add ((k, x) # d) v w =
     (if k = v then (k, x + w) # d else (k, x) # dict_add d v w)"

fun build_loop :: "'w::{zero,plus} adjacency \<Rightarrow> 'w edge list \<Rightarrow> py_error + 'w adjacency" where
  "build_loop out_edges [] = Inr out_edges"
| "build_loop out_edges ((a, b, w) # connections) =
     (case py_index (length out_edges) (a - 1) of
        None \<Rightarrow> Inl IndexError
      | Some u \<Rightarrow> build_loop (out_edges[u := dict_add (out_edges ! u) (b - 1) w]) connections)"

definition build_out_edges :: "int \<Rightarrow> 'w::{zero,plus} edge list \<Rightarrow> py_error + 'w adjacency" where
  "build_out_edges M connections = build_loop (replicate (nat M) []) connections"

section \<open>Fast tick: \<open>step_fast\<close>\<close>

text \<open>The inner loop \<open>for v, w in out_edges[u]: received[v] += w\<close>.\<close>

fun add_out :: "'w::plus list \<Rightarrow> (int \<times> 'w) list \<Rightarrow> py_error + 'w list" where
  "add_out received [] = Inr received"
| "add_out received ((v, w) # vs) =
     (case py_index (length received) v of
        None \<Rightarrow> Inl IndexError
      | Some k \<Rightarrow> add_out (received[k := received ! k + w]) vs)"

text \<open>
  The outer loop \<open>for u, nu in enumerate(neurons)\<close>; \<open>out_edges[u]\<close> is only evaluated
  for an active \<open>nu\<close>.
\<close>

fun receive_fast ::
  "'w::plus adjacency \<Rightarrow> 'w list \<Rightarrow> (nat \<times> 'w neuron) list \<Rightarrow> py_error + 'w list" where
  "receive_fast out_edges received [] = Inr received"
| "receive_fast out_edges received ((u, nu) # rest) =
     (if state nu = 1 then
        (case py_index (length out_edges) (int u) of
           None \<Rightarrow> Inl IndexError
         | Some p \<Rightarrow>
             (case add_out received (out_edges ! p) of
                Inl e \<Rightarrow> Inl e
              | Inr received' \<Rightarrow> receive_fast out_edges received' rest))
      else receive_fast out_edges received rest)"

definition step_fast ::
  "'w::{zero,plus,ord} neuron list \<Rightarrow> 'w adjacency \<Rightarrow> 'w neuron list \<times> (py_error + int list)" where
  "step_fast neurons out_edges =
     (case receive_fast out_edges (replicate (length neurons) 0) (enumerate 0 neurons) of
        Inl e \<Rightarrow> (neurons, Inl e)
      | Inr received \<Rightarrow>
          (let neurons' = commit neurons (decide neurons received)
           in (neurons', Inr (map state neurons'))))"

section \<open>Drivers: \<open>simulate_N\<close> and \<open>simulate_fast\<close>\<close>

text \<open>
  Both drivers run the same loop \<open>for t in range(1, N + 1)\<close>: one tick, then
  \<open>if debug_every is not None and t % debug_every == 0: print(...)\<close>.  The loop is written
  once, over the tick \<open>tick\<close>; the printed snapshots \<open>(t, states)\<close> are collected in order.
  The result is the neurons as the call leaves them, the snapshots printed, and the outcome.
\<close>

type_synonym snapshot = "int \<times> int list"

fun ticks ::
  "('w neuron list \<Rightarrow> 'w neuron list \<times> (py_error + int list)) \<Rightarrow> int option \<Rightarrow>
   'w neuron list \<Rightarrow> snapshot list \<Rightarrow> int list \<Rightarrow>
   'w neuron list \<times> snapshot list \<times> (py_error + unit)" where
  "ticks tick debug_every neurons printed [] = (neurons, printed, Inr ())"
| "ticks tick debug_every neurons printed (t # ts) =
     (case tick neurons of
        (neurons', Inl e) \<Rightarrow> (neurons', printed, Inl e)
      | (neurons', Inr _) \<Rightarrow>
          (case debug_every of
             None \<Rightarrow> ticks tick debug_every neurons' printed ts
           | Some k \<Rightarrow>
               if k = 0 then (neurons', printed, Inl ZeroDivisionError)
               else if t mod k = 0
                 then ticks tick debug_every neurons' (printed @ [(t, map state neurons')]) ts
                 else ticks tick debug_every neurons' printed ts))"

definition simulate_N ::
  "'w::{zero,plus,ord} neuron list \<Rightarrow> 'w edge list \<Rightarrow> int \<Rightarrow> int option \<Rightarrow>
   'w neuron list \<times> snapshot list \<times> (py_error + int list)" where
  "simulate_N neurons connections N debug_every =
     (case ticks (\<lambda>ns. steps ns connections) debug_every neurons [] [1..N] of
        (neurons', printed, Inl e) \<Rightarrow> (neurons', printed, Inl e)
      | (neurons', printed, Inr _) \<Rightarrow> (neurons', printed, Inr (map state neurons')))"

definition simulate_fast ::
  "'w::{zero,plus,ord} neuron list \<Rightarrow> 'w edge list \<Rightarrow> int \<Rightarrow> int option \<Rightarrow>
   'w neuron list \<times> snapshot list \<times> (py_error + int list)" where
  "simulate_fast neurons connections N debug_every =
     (case build_out_edges (int (length neurons)) connections of
        Inl e \<Rightarrow> (neurons, [], Inl e)
      | Inr out_edges \<Rightarrow>
          (case ticks (\<lambda>ns. step_fast ns out_edges) debug_every neurons [] [1..N] of
             (neurons', printed, Inl e) \<Rightarrow> (neurons', printed, Inl e)
           | (neurons', printed, Inr _) \<Rightarrow> (neurons', printed, Inr (map state neurons'))))"

section \<open>Reading a case: \<open>_read_stdin_case\<close> and the judge entry points\<close>

text \<open>
  Standard input is the list of its lines.  The reader calls four builtins on strings,
  \<open>int\<close>, \<open>float\<close>, \<open>str.strip\<close> and \<open>str.split\<close>; they are parameters of the model
  (\<open>None\<close> is the builtin raising \<open>ValueError\<close>), so that what is proved of the reader holds
  whatever those builtins accept.
\<close>

record 'w builtins =
  int_of :: "string \<Rightarrow> int option"
  float_of :: "string \<Rightarrow> 'w option"
  strip_of :: "string \<Rightarrow> string"
  split_of :: "string \<Rightarrow> string list"

text \<open>\<open>sys.stdin.readline()\<close>: the next line, or the empty string at end of input.\<close>

definition readline :: "string list \<Rightarrow> string \<times> string list" where
  "readline stdin = (case stdin of [] \<Rightarrow> ([], []) | l # rest \<Rightarrow> (l, rest))"

text \<open>\<open>list(map(f, tokens))\<close>, stopping at the first token \<open>f\<close> rejects.\<close>

fun parse_all :: "(string \<Rightarrow> 'a option) \<Rightarrow> string list \<Rightarrow> py_error + 'a list" where
  "parse_all f [] = Inr []"
| "parse_all f (t # ts) =
     (case f t of
        None \<Rightarrow> Inl ValueError
      | Some x \<Rightarrow> (case parse_all f ts of Inl e \<Rightarrow> Inl e | Inr xs \<Rightarrow> Inr (x # xs)))"

text \<open>
  The loop \<open>for line in sys.stdin\<close>: blank lines are skipped, \<open>'E'\<close> breaks, any other line
  is unpacked as \<open>a, b, w = line.split()\<close> (a \<open>ValueError\<close> unless there are exactly three
  tokens) and converted.  The loop also ends, without complaint, when the input does.
\<close>

fun read_edges :: "'w builtins \<Rightarrow> 'w edge list \<Rightarrow> string list \<Rightarrow> py_error + 'w edge list" where
  "read_edges B connections [] = Inr connections"
| "read_edges B connections (l # stdin) =
     (let line = strip_of B l in
      if line = [] then read_edges B connections stdin
      else if line = ''E'' then Inr connections
      else (case split_of B line of
              [a, b, w] \<Rightarrow>
                (case int_of B a of
                   None \<Rightarrow> Inl ValueError
                 | Some a' \<Rightarrow>
                     (case int_of B b of
                        None \<Rightarrow> Inl ValueError
                      | Some b' \<Rightarrow>
                          (case float_of B w of
                             None \<Rightarrow> Inl ValueError
                           | Some w' \<Rightarrow> read_edges B (connections @ [(a', b', w')]) stdin)))
            | _ \<Rightarrow> Inl ValueError))"

text \<open>
  \<open>[{"id": i+1, "state": s[i], "threshold": X[i]} for i in range(M)]\<close>: the subscripts are
  non-negative, so the comprehension raises \<open>IndexError\<close> exactly when \<open>s\<close> or \<open>X\<close> is
  shorter than \<open>M\<close>.
\<close>

definition make_neurons :: "int \<Rightarrow> int list \<Rightarrow> 'w list \<Rightarrow> py_error + 'w neuron list" where
  "make_neurons M s X =
     (if nat M \<le> length s \<and> nat M \<le> length X
      then Inr (map (\<lambda>i. \<lparr>nid = int i + 1, state = s ! i, threshold = X ! i\<rparr>) [0..<nat M])
      else Inl IndexError)"

definition read_stdin_case ::
  "'w builtins \<Rightarrow> string list \<Rightarrow> py_error + ('w neuron list \<times> 'w edge list \<times> int)" where
  "read_stdin_case B stdin =
     (let (l1, stdin1) = readline stdin in
      case int_of B (strip_of B l1) of
        None \<Rightarrow> Inl ValueError
      | Some M \<Rightarrow>
     (let (l2, stdin2) = readline stdin1 in
      case parse_all (int_of B) (split_of B l2) of
        Inl e \<Rightarrow> Inl e
      | Inr s \<Rightarrow>
     (let (l3, stdin3) = readline stdin2 in
      case parse_all (float_of B) (split_of B l3) of
        Inl e \<Rightarrow> Inl e
      | Inr X \<Rightarrow>
     (let (l4, stdin4) = readline stdin3 in
      case int_of B (strip_of B l4) of
        None \<Rightarrow> Inl ValueError
      | Some N \<Rightarrow>
     (case read_edges B [] stdin4 of
        Inl e \<Rightarrow> Inl e
      | Inr connections \<Rightarrow>
     (case make_neurons M s X of
        Inl e \<Rightarrow> Inl e
      | Inr neurons \<Rightarrow> Inr (neurons, connections, N)))))))"

text \<open>
  The three entry points read a case and then simulate; the value is what they print
  (for \<open>verify_stdin\<close> the two outputs and the match flag; the timings are left out).
\<close>

definition solve_stdin :: "'w::{zero,plus,ord} builtins \<Rightarrow> string list \<Rightarrow> py_error + int list" where
  "solve_stdin B stdin =
     (case read_stdin_case B stdin of
        Inl e \<Rightarrow> Inl e
      | Inr (neurons, connections, N) \<Rightarrow> snd (snd (simulate_N neurons connections N None)))"

definition solve_stdin_fast :: "'w::{zero,plus,ord} builtins \<Rightarrow> string list \<Rightarrow> py_error + int list" where
  "solve_stdin_fast B stdin =
     (case read_stdin_case B stdin of
        Inl e \<Rightarrow> Inl e
      | Inr (neurons, connections, N) \<Rightarrow> snd (snd (simulate_fast neurons connections N None)))"

definition verify_stdin ::
  "'w::{zero,plus,ord} builtins \<Rightarrow> string list \<Rightarrow> py_error + (int list \<times> int list \<times> bool)" where
  "verify_stdin B stdin =
     (case read_stdin_case B stdin of
        Inl e \<Rightarrow> Inl e
      | Inr (neurons, connections, N) \<Rightarrow>
          (case snd (snd (simulate_N neurons connections N None)) of
             Inl e \<Rightarrow> Inl e
           | Inr base_out \<Rightarrow>
               (case snd (snd (simulate_fast neurons connections N None)) of
                  Inl e \<Rightarrow> Inl e
                | Inr fast_out \<Rightarrow> Inr (base_out, fast_out, base_out = fast_out))))"

subsection \<open>The builtins on ASCII text\<close>

text \<open>
  One instance of the builtins, for running the reader on concrete ASCII input:
  \<open>str.strip\<close> and \<open>str.split\<close> on ASCII whitespace, \<open>int\<close> on decimal literals (optional
  sign, single underscores between digits, surrounding whitespace), and \<open>float\<close> on the
  same integer literals, rounded to the nearest double.  Python's \<open>float\<close> accepts more
  (fractions, exponents, \<open>inf\<close>, \<open>nan\<close>); this instance is only used on integer literals.
\<close>

definition isspace :: "char \<Rightarrow> bool" where
  "isspace c \<longleftrightarrow> c \<in> {CHR '' '', CHR 0x09, CHR 0x0A, CHR 0x0B, CHR 0x0C, CHR 0x0D,
                        CHR 0x1C, CHR 0x1D, CHR 0x1E, CHR 0x1F}"

definition ascii_strip :: "string \<Rightarrow> string" where
  "ascii_strip s = rev (dropWhile isspace (rev (dropWhile isspace s)))"

fun tokens :: "string \<Rightarrow> string \<Rightarrow> string list" where
  "tokens cur [] = (if cur = [] then [] else [cur])"
| "tokens cur (c # cs) =
     (if isspace c then (if cur = [] then tokens [] cs else cur # tokens [] cs)
      else tokens (cur @ [c]) cs)"

definition ascii_split :: "string \<Rightarrow> string list" where
  "ascii_split s = tokens [] s"

definition digit_val :: "char \<Rightarrow> int option" where
  "digit_val c =
     (let n = (of_char c :: nat) in if 48 \<le> n \<and> n \<le> 57 then Some (int n - 48) else None)"

fun digits_val :: "int \<Rightarrow> string \<Rightarrow> int option" where
  "digits_val acc [] = Some acc"
| "digits_val acc (c # cs) =
     (case digit_val c of None \<Rightarrow> None | Some d \<Rightarrow> digits_val (10 * acc + d) cs)"

text \<open>Underscores may only stand between two digits; the literal is not empty.\<close>

fun grouped :: "bool \<Rightarrow> string \<Rightarrow> bool" where
  "grouped d [] = d"
| "grouped d (c # cs) = (if c = CHR ''_'' then d \<and> grouped False cs else grouped True cs)"

definition ascii_int :: "string \<Rightarrow> int option" where
  "ascii_int s =
     (let t = ascii_strip s;
          (neg, body) = (case t of
                           [] \<Rightarrow> (False, [])
                         | c # cs \<Rightarrow> if c = CHR ''-'' then (True, cs)
                                     else if c = CHR ''+'' then (False, cs) else (False, t))
      in if grouped False body
         then map_option (\<lambda>n. if neg then - n else n)
                (digits_val 0 (filter (\<lambda>c. c \<noteq> CHR ''_'') body))
         else None)"

definition int_literal_float :: "string \<Rightarrow> pyfloat option" where
  "int_literal_float s = map_option (\<lambda>n. round_double (of_int n)) (ascii_int s)"

definition ascii_builtins :: "pyfloat builtins" where
  "ascii_builtins = \<lparr>int_of = ascii_int, float_of = int_literal_float,
                      strip_of = ascii_strip, split_of = ascii_split\<rparr>"

section \<open>Vocabulary of the specification\<close>

text \<open>A case is valid when every edge joins two neuron ids in \<open>1 .. M\<close>.\<close>

definition valid_edges :: "nat \<Rightarrow> 'w edge list \<Rightarrow> bool" where
  "valid_edges M connections =
     list_all (\<lambda>(a, b, w). 1 \<le> a \<and> a \<le> int M \<and> 1 \<le> b \<and> b \<le> int M) connections"

text \<open>
  The weights, in input order, of the edges from source index \<open>u\<close> to destination index \<open>v\<close>.
\<close>

definition edge_weights :: "'w edge list \<Rightarrow> nat \<Rightarrow> int \<Rightarrow> 'w list" where
  "edge_weights connections u v =
     map (\<lambda>(a, b, w). w) (filter (\<lambda>(a, b, w). a - 1 = int u \<and> b - 1 = v) connections)"

text \<open>
  The received signal as the specification words it: the weights of all edges \<open>(a, b, w)\<close>
  with \<open>b - 1 = i\<close> whose source neuron \<open>a\<close> has state 1, summed from zero in input order;
  and the next state vector it prescribes.
\<close>

definition active_inflow :: "'w neuron list \<Rightarrow> 'w edge list \<Rightarrow> nat \<Rightarrow> 'w list" where
  "active_inflow neurons connections i =
     map (\<lambda>(a, b, w). w)
       (filter (\<lambda>(a, b, w). b - 1 = int i \<and> 1 \<le> a \<and> a \<le> int (length neurons)
                  \<and> state (neurons ! nat (a - 1)) = 1) connections)"

definition received_spec :: "'w::{zero,plus} neuron list \<Rightarrow> 'w edge list \<Rightarrow> nat \<Rightarrow> 'w" where
  "received_spec neurons connections i = foldl (+) 0 (active_inflow neurons connections i)"

definition tick_spec :: "'w::{zero,plus,ord} neuron list \<Rightarrow> 'w edge list \<Rightarrow> int list" where
  "tick_spec neurons connections =
     map (\<lambda>i. if threshold (neurons ! i) \<le> received_spec neurons connections i then 1 else 0)
       [0..<length neurons]"

text \<open>
  The state of the neuron that \<open>neurons[a-1]\<close> denotes, if any; the edge list without the
  edges whose source has state 0; the adjacency with the lists of such sources emptied.
\<close>

definition source_state :: "'w neuron list \<Rightarrow> int \<Rightarrow> int option" where
  "source_state neurons a =
     map_option (\<lambda>j. state (neurons ! j)) (py_index (length neurons) (a - 1))"

definition without_inactive :: "'w neuron list \<Rightarrow> 'w edge list \<Rightarrow> 'w edge list" where
  "without_inactive neurons connections =
     filter (\<lambda>(a, b, w). source_state neurons a \<noteq> Some 0) connections"

definition clear_inactive :: "'w neuron list \<Rightarrow> 'w adjacency \<Rightarrow> 'w adjacency" where
  "clear_inactive neurons out_edges =
     map (\<lambda>(u, vs). if u < length neurons \<and> state (neurons ! u) = 0 then [] else vs)
       (enumerate 0 out_edges)"


text \<open>
  The invariant of the build loop: row \<open>u\<close> has one entry per destination that some edge
  processed so far reaches from \<open>u\<close>, holding the sum of those edges' weights.
\<close>

definition aggregate_of :: "'w::{zero,plus} edge list \<Rightarrow> nat \<Rightarrow> int \<Rightarrow> 'w option" where
  "aggregate_of es u v =
     (if edge_weights es u v = [] then None else Some (foldl (+) 0 (edge_weights es u v)))"

definition aggregated :: "'w::{zero,plus} adjacency \<Rightarrow> 'w edge list \<Rightarrow> bool" where
  "aggregated oe es \<longleftrightarrow>
     (\<forall>u < length oe. distinct (map fst (oe ! u)) \<and> (\<forall>v. map_of (oe ! u) v = aggregate_of es u v))"






text \<open>
  Malformed input, as the reader sees it.  \<open>header stdin k\<close> is what the \<open>k\<close>-th call of
  \<open>readline\<close> returns; the edge records are the lines after the fourth, up to the first
  \<open>'E'\<close> or the end of input.
\<close>

definition header :: "string list \<Rightarrow> nat \<Rightarrow> string" where
  "header stdin k = (if k < length stdin then stdin ! k else [])"

definition edge_lines :: "'w builtins \<Rightarrow> string list \<Rightarrow> string list" where
  "edge_lines B stdin = takeWhile (\<lambda>l. strip_of B l \<noteq> ''E'') (drop 4 stdin)"

definition bad_edge_line :: "'w builtins \<Rightarrow> string \<Rightarrow> bool" where
  "bad_edge_line B l =
     (let line = strip_of B l in
      line \<noteq> [] \<and>
      (case split_of B line of
         [a, b, w] \<Rightarrow> int_of B a = None \<or> int_of B b = None \<or> float_of B w = None
       | _ \<Rightarrow> True))"

definition malformed :: "'w builtins \<Rightarrow> string list \<Rightarrow> bool" where
  "malformed B stdin \<longleftrightarrow>
     int_of B (strip_of B (header stdin 0)) = None
   \<or> list_ex (\<lambda>t. int_of B t = None) (split_of B (header stdin 1))
   \<or> list_ex (\<lambda>t. float_of B t = None) (split_of B (header stdin 2))
   \<or> int_of B (strip_of B (header stdin 3)) = None
   \<or> list_ex (bad_edge_line B) (edge_lines B stdin)
   \<or> (case int_of B (strip_of B (header stdin 0)) of
         None \<Rightarrow> False
       | Some M \<Rightarrow> length (split_of B (header stdin 1)) < nat M
                  \<or> length (split_of B (header stdin 2)) < nat M)"

subsection \<open>Example networks\<close>

text \<open>
  Two active neurons feed neuron 2 with weights \<open>1\<close>, \<open>2^53\<close> and \<open>1\<close>; its threshold is
  \<open>2^53 + 2\<close>.  In the second network the middle weight is \<open>2^53 - 2\<close> and the threshold
  \<open>2^53\<close>: its weights sum to exactly \<open>2^53\<close>.
\<close>

definition race_neurons :: "pyfloat neuron list" where
  "race_neurons = [\<lparr>nid = 1, state = 1, threshold = Finite (1 / 2)\<rparr>,
                   \<lparr>nid = 2, state = 1, threshold = Finite 9007199254740994\<rparr>]"

definition race_edges :: "pyfloat edge list" where
  "race_edges = [(1, 2, Finite 1), (2, 2, Finite 9007199254740992), (1, 2, Finite 1)]"



text \<open>A single neuron with threshold zero, and one with threshold one that is active.\<close>

definition idle_neuron :: "pyfloat neuron list" where
  "idle_neuron = [\<lparr>nid = 1, state = 0, threshold = Finite 0\<rparr>]"

definition lone_neuron :: "pyfloat neuron list" where
  "lone_neuron = [\<lparr>nid = 1, state = 1, threshold = Finite 1\<rparr>]"

section \<open>Basic facts\<close>

subsection \<open>Subscripts\<close>

lemma py_index_Some_iff:
  "py_index n i = Some k \<longleftrightarrow>
     (0 \<le> i \<and> i < int n \<and> k = nat i) \<or> (i < 0 \<and> - int n \<le> i \<and> k = nat (int n + i))"
  by (auto simp: py_index_def Let_def)

lemma py_index_None_iff: "py_index n i = None \<longleftrightarrow> i < - int n \<or> int n \<le> i"
  by (auto simp: py_index_def Let_def)

lemma py_index_nat [simp]: "py_index n (int u) = (if u < n then Some u else None)"
  by (auto simp: py_index_def Let_def)

lemma py_index_valid: "1 \<le> a \<Longrightarrow> a \<le> int M \<Longrightarrow> py_index M (a - 1) = Some (nat (a - 1))"
  by (simp add: py_index_def)

lemma valid_edges_Cons:
  "valid_edges M ((a, b, w) # es) \<longleftrightarrow>
     1 \<le> a \<and> a \<le> int M \<and> 1 \<le> b \<and> b \<le> int M \<and> valid_edges M es"
  by (simp add: valid_edges_def)

subsection \<open>Deciding and committing\<close>

lemma length_commit [simp]: "length (commit ns xs) = length ns"
  by (simp add: commit_def)

lemma length_decide [simp]: "length (decide ns r) = length ns"
  by (simp add: decide_def)

lemma map_threshold_commit [simp]: "map threshold (commit ns xs) = map threshold ns"
  by (rule nth_equalityI) (simp_all add: commit_def)

lemma map_nid_commit [simp]: "map nid (commit ns xs) = map nid ns"
  by (rule nth_equalityI) (simp_all add: commit_def)

lemma map_state_commit [simp]: "length xs = length ns \<Longrightarrow> map state (commit ns xs) = xs"
  by (rule nth_equalityI) (simp_all add: commit_def)

lemma set_decide: "set (decide ns r) \<subseteq> {0, 1}"
  by (auto simp: decide_def)

lemma steps_frame:
  "map threshold (fst (steps ns es)) = map threshold ns
   \<and> map nid (fst (steps ns es)) = map nid ns
   \<and> length (fst (steps ns es)) = length ns"
  by (simp add: steps_def Let_def split: sum.splits)

lemma step_fast_frame:
  "map threshold (fst (step_fast ns oe)) = map threshold ns
   \<and> map nid (fst (step_fast ns oe)) = map nid ns
   \<and> length (fst (step_fast ns oe)) = length ns"
  by (simp add: step_fast_def Let_def split: sum.splits)

lemma steps_result:
  "steps ns es = (ns', Inr out) \<Longrightarrow>
   set out \<subseteq> {0, 1} \<and> map state ns' = out \<and> length out = length ns"
  using set_decide by (auto simp: steps_def Let_def split: sum.splits)

lemma step_fast_result:
  "step_fast ns oe = (ns', Inr out) \<Longrightarrow>
   set out \<subseteq> {0, 1} \<and> map state ns' = out \<and> length out = length ns"
  using set_decide by (auto simp: step_fast_def Let_def split: sum.splits)

subsection \<open>The driver loop\<close>

lemma ticks_frame:
  assumes "\<And>ns. map threshold (fst (tick ns)) = map threshold ns
    \<and> map nid (fst (tick ns)) = map nid ns \<and> length (fst (tick ns)) = length ns"
  shows "map threshold (fst (ticks tick d ns pr ts)) = map threshold ns
    \<and> map nid (fst (ticks tick d ns pr ts)) = map nid ns
    \<and> length (fst (ticks tick d ns pr ts)) = length ns"
proof (induction ts arbitrary: ns pr)
  case Nil
  then show ?case by simp
next
  case (Cons t ts)
  obtain ns' r where t: "tick ns = (ns', r)" by (cases "tick ns")
  have f: "map threshold ns' = map threshold ns \<and> map nid ns' = map nid ns
      \<and> length ns' = length ns"
    using assms[of ns] t by simp
  show ?case
    using f Cons.IH[of ns'] by (cases r; cases d) (simp_all add: t)
qed

lemma ticks_debug_every:
  "d \<noteq> Some 0 \<Longrightarrow>
   fst (ticks tick d ns pr ts) = fst (ticks tick None ns [] ts) \<and>
   snd (snd (ticks tick d ns pr ts)) = snd (snd (ticks tick None ns [] ts))"
proof (induction ts arbitrary: ns pr)
  case Nil
  then show ?case by simp
next
  case (Cons t ts)
  obtain ns' r where t: "tick ns = (ns', r)" by (cases "tick ns")
  show ?case
    using Cons.prems Cons.IH[of ns']
    by (cases r; cases d) (simp_all add: t)
qed



subsection \<open>The baseline accumulator\<close>

lemma active_inflow_Cons:
  "active_inflow ns ((a, b, w) # es) i =
     (if b - 1 = int i \<and> 1 \<le> a \<and> a \<le> int (length ns) \<and> state (ns ! nat (a - 1)) = 1
      then w # active_inflow ns es i else active_inflow ns es i)"
  by (simp add: active_inflow_def)

lemma send_valid:
  "valid_edges (length ns) es \<Longrightarrow> length r = length ns \<Longrightarrow>
   send ns r es = Inr (map (\<lambda>i. foldl (+) (r ! i) (active_inflow ns es i)) [0..<length ns])"
proof (induction es arbitrary: r)
  case Nil
  then show ?case using map_nth[of r] by (simp add: active_inflow_def)
next
  case (Cons e es)
  obtain a b w where e: "e = (a, b, w)" by (cases e)
  from Cons.prems have a: "1 \<le> a" "a \<le> int (length ns)" and b: "1 \<le> b" "b \<le> int (length ns)"
    and es: "valid_edges (length ns) es"
    by (simp_all add: e valid_edges_Cons)
  show ?case
  proof (cases "state (ns ! nat (a - 1)) = 1")
    case False
    then show ?thesis
      using Cons.IH[OF es Cons.prems(2)] a
      by (simp add: e py_index_valid active_inflow_Cons)
  next
    case True
    let ?k = "nat (b - 1)"
    let ?r = "r[?k := r ! ?k + w]"
    have k: "?k < length r" using b Cons.prems(2) by auto
    have len: "length ?r = length ns" using Cons.prems(2) by simp
    have eq: "b - 1 = int i \<longleftrightarrow> i = ?k" for i using b by auto
    have "map (\<lambda>i. foldl (+) (?r ! i) (active_inflow ns es i)) [0..<length ns]
        = map (\<lambda>i. foldl (+) (r ! i) (active_inflow ns (e # es) i)) [0..<length ns]"
      using True a k Cons.prems(2)
      by (auto simp: e active_inflow_Cons eq nth_list_update)
    then show ?thesis
      using Cons.IH[OF es len] a b True Cons.prems(2)
      by (simp add: e py_index_valid)
  qed
qed

lemma steps_valid:
  assumes "valid_edges (length ns) es"
  shows "steps ns es = (commit ns (tick_spec ns es), Inr (tick_spec ns es))"
proof -
  have "decide ns (map (\<lambda>i. foldl (+) (replicate (length ns) 0 ! i) (active_inflow ns es i))
          [0..<length ns]) = tick_spec ns es"
    by (simp add: decide_def tick_spec_def received_spec_def)
  moreover have "length (tick_spec ns es) = length ns" by (simp add: tick_spec_def)
  ultimately show ?thesis
    using send_valid[OF assms, of "replicate (length ns) 0"]
    by (simp add: steps_def Let_def)
qed

subsection \<open>Inactive sources\<close>

lemma send_without_inactive:
  "send ns r (without_inactive ns es) = send ns r es"
proof (induction es arbitrary: r)
  case Nil
  then show ?case by (simp add: without_inactive_def)
next
  case (Cons e es)
  obtain a b w where e: "e = (a, b, w)" by (cases e)
  show ?case
    using Cons.IH
    by (auto simp: without_inactive_def source_state_def e split: option.splits)
qed

lemma length_clear_inactive [simp]: "length (clear_inactive ns oe) = length oe"
  by (simp add: clear_inactive_def)

lemma nth_clear_inactive:
  "u < length oe \<Longrightarrow>
   clear_inactive ns oe ! u = (if u < length ns \<and> state (ns ! u) = 0 then [] else oe ! u)"
  by (simp add: clear_inactive_def nth_enumerate_eq)

lemma receive_fast_clear_inactive:
  assumes "\<forall>(u, nu) \<in> set us. u < length ns \<and> nu = ns ! u"
  shows "receive_fast (clear_inactive ns oe) r us = receive_fast oe r us"
  using assms
proof (induction us arbitrary: r)
  case Nil
  then show ?case by simp
next
  case (Cons p us)
  obtain u nu where p: "p = (u, nu)" by (cases p)
  from Cons.prems have nu: "u < length ns" "nu = ns ! u"
    and rest: "\<forall>(u, nu) \<in> set us. u < length ns \<and> nu = ns ! u"
    by (auto simp: p)
  show ?case using Cons.IH[OF rest] nu
    by (simp add: p nth_clear_inactive split: sum.splits)
qed

lemma enumerate_neurons: "\<forall>(u, nu) \<in> set (enumerate 0 ns). u < length ns \<and> nu = ns ! u"
  by (auto simp: in_set_enumerate_eq)

subsection \<open>The build loop\<close>

lemma build_loop_ok_iff:
  "(\<exists>oe'. build_loop oe es = Inr oe') \<longleftrightarrow>
   (\<forall>(a, b, w) \<in> set es. - int (length oe) \<le> a - 1 \<and> a - 1 < int (length oe))"
proof (induction es arbitrary: oe)
  case Nil
  then show ?case by simp
next
  case (Cons e es)
  obtain a b w where e: "e = (a, b, w)" by (cases e)
  show ?case
  proof (cases "py_index (length oe) (a - 1)")
    case None
    then have "\<not> (- int (length oe) \<le> a - 1 \<and> a - 1 < int (length oe))"
      by (auto simp: py_index_None_iff)
    then show ?thesis using None by (auto simp: e)
  next
    case (Some u)
    then have "- int (length oe) \<le> a - 1 \<and> a - 1 < int (length oe)"
      by (auto simp: py_index_Some_iff)
    then show ?thesis
      using Cons.IH[of "oe[u := dict_add (oe ! u) (b - 1) w]"] Some
      by (simp add: e)
  qed
qed

lemma build_loop_error: "build_loop oe es = Inl e \<Longrightarrow> e = IndexError"
proof (induction es arbitrary: oe)
  case Nil
  then show ?case by simp
next
  case (Cons x es)
  obtain a b w where x: "x = (a, b, w)" by (cases x)
  from Cons.prems Cons.IH show ?case
    by (auto simp: x split: option.splits)
qed

lemma map_of_dict_add:
  "map_of (dict_add d v w) =
     (map_of d)(v \<mapsto> (case map_of d v of None \<Rightarrow> 0 + w | Some x \<Rightarrow> x + w))"
  by (induction d v w rule: dict_add.induct) auto

lemma keys_dict_add: "fst ` set (dict_add d v w) = insert v (fst ` set d)"
  by (induction d v w rule: dict_add.induct) auto

lemma distinct_dict_add: "distinct (map fst d) \<Longrightarrow> distinct (map fst (dict_add d v w))"
  by (induction d v w rule: dict_add.induct) (auto simp: keys_dict_add)


lemma edge_weights_snoc:
  "edge_weights (ps @ [(a, b, w)]) u v =
     edge_weights ps u v @ (if a - 1 = int u \<and> b - 1 = v then [w] else [])"
  by (simp add: edge_weights_def)

lemma aggregate_of_snoc:
  "aggregate_of (ps @ [(a, b, w)]) u v =
     (if a - 1 = int u \<and> b - 1 = v
      then Some (case aggregate_of ps u v of None \<Rightarrow> 0 + w | Some x \<Rightarrow> x + w)
      else aggregate_of ps u v)"
  by (simp add: aggregate_of_def edge_weights_snoc)

lemma aggregated_step:
  assumes "aggregated oe ps" "1 \<le> a" "a \<le> int (length oe)"
  shows "aggregated (oe[nat (a - 1) := dict_add (oe ! nat (a - 1)) (b - 1) w]) (ps @ [(a, b, w)])"
  unfolding aggregated_def
proof (intro allI impI conjI)
  fix u assume u: "u < length (oe[nat (a - 1) := dict_add (oe ! nat (a - 1)) (b - 1) w])"
  then have u': "u < length oe" by simp
  from assms(1) u' have d: "distinct (map fst (oe ! u))"
    and m: "\<And>v. map_of (oe ! u) v = aggregate_of ps u v"
    by (simp_all add: aggregated_def)
  have au: "a - 1 = int u \<longleftrightarrow> u = nat (a - 1)" using assms(2) by auto
  have nth: "oe[nat (a - 1) := dict_add (oe ! nat (a - 1)) (b - 1) w] ! u
      = (if u = nat (a - 1) then dict_add (oe ! u) (b - 1) w else oe ! u)"
    using u' by (auto simp: nth_list_update)
  show "distinct (map fst (oe[nat (a - 1) := dict_add (oe ! nat (a - 1)) (b - 1) w] ! u))"
    using d by (auto simp: nth intro: distinct_dict_add)
  fix v
  show "map_of (oe[nat (a - 1) := dict_add (oe ! nat (a - 1)) (b - 1) w] ! u) v
      = aggregate_of (ps @ [(a, b, w)]) u v"
    using m by (auto simp: nth aggregate_of_snoc au map_of_dict_add)
qed

lemma build_loop_aggregated:
  "valid_edges (length oe) es \<Longrightarrow> aggregated oe ps \<Longrightarrow>
   \<exists>oe'. build_loop oe es = Inr oe' \<and> length oe' = length oe \<and> aggregated oe' (ps @ es)"
proof (induction es arbitrary: oe ps)
  case Nil
  then show ?case by simp
next
  case (Cons e es)
  obtain a b w where e: "e = (a, b, w)" by (cases e)
  from Cons.prems(1) have a: "1 \<le> a" "a \<le> int (length oe)"
    and es: "valid_edges (length oe) es"
    by (simp_all add: e valid_edges_Cons)
  let ?oe = "oe[nat (a - 1) := dict_add (oe ! nat (a - 1)) (b - 1) w]"
  have "aggregated ?oe (ps @ [(a, b, w)])" by (rule aggregated_step[OF Cons.prems(2) a])
  moreover have "valid_edges (length ?oe) es" using es by simp
  ultimately obtain oe' where "build_loop ?oe es = Inr oe'" "length oe' = length ?oe"
    "aggregated oe' ((ps @ [(a, b, w)]) @ es)"
    using Cons.IH by blast
  then show ?case using a by (simp add: e py_index_valid)
qed

lemma build_out_edges_aggregated:
  assumes "valid_edges M es"
  shows "\<exists>oe. build_out_edges (int M) es = Inr oe \<and> length oe = M \<and> aggregated oe es"
proof -
  have "aggregated (replicate M []) ([] :: 'a edge list)"
    by (simp add: aggregated_def aggregate_of_def edge_weights_def)
  from build_loop_aggregated[of "replicate M []" es "[]", OF _ this] assms
  show ?thesis by (simp add: build_out_edges_def)
qed

lemma aggregated_entry:
  assumes "aggregated oe es" "u < length oe" "(v, x) \<in> set (oe ! u)"
  shows "edge_weights es u v \<noteq> [] \<and> x = foldl (+) 0 (edge_weights es u v)"
proof -
  from assms have "aggregate_of es u v = Some x"
    by (auto simp: aggregated_def simp flip: map_of_eq_Some_iff)
  then show ?thesis by (auto simp: aggregate_of_def split: if_splits)
qed


subsection \<open>The fast accumulator\<close>





subsection \<open>The fast accumulator as a fold over the active rows\<close>






subsection \<open>The drivers in terms of the loop\<close>

lemma simulate_N_alt:
  "simulate_N ns es N d =
     (let T = ticks (\<lambda>ns. steps ns es) d ns [] [1..N]
      in (fst T, fst (snd T), map_sum id (\<lambda>_. map state (fst T)) (snd (snd T))))"
  by (simp add: simulate_N_def Let_def split: prod.splits sum.splits)

lemma simulate_fast_alt:
  "build_out_edges (int (length ns)) es = Inr oe \<Longrightarrow>
   simulate_fast ns es N d =
     (let T = ticks (\<lambda>ns. step_fast ns oe) d ns [] [1..N]
      in (fst T, fst (snd T), map_sum id (\<lambda>_. map state (fst T)) (snd (snd T))))"
  by (simp add: simulate_fast_def Let_def split: prod.splits sum.splits)

lemma simulate_fast_build_error:
  "build_out_edges (int (length ns)) es = Inl e \<Longrightarrow> simulate_fast ns es N d = (ns, [], Inl e)"
  by (simp add: simulate_fast_def)

subsection \<open>Rounding to a double\<close>

lemma powi2_less_iff: "(2::rat) powi a < 2 powi b \<longleftrightarrow> a < b"
proof
  assume "a < b" then show "(2::rat) powi a < 2 powi b"
    by (simp add: power_int_strict_increasing)
next
  assume h: "(2::rat) powi a < 2 powi b"
  show "a < b"
  proof (rule ccontr)
    assume "\<not> a < b"
    then have "b \<le> a" by simp
    then have "(2::rat) powi b \<le> 2 powi a" by (simp add: power_int_increasing)
    with h show False by simp
  qed
qed

lemma bitlen_powi_bounds:
  assumes "0 < n"
  shows "(2::rat) powi (bitlen n - 1) \<le> of_int n" and "of_int n < (2::rat) powi (bitlen n)"
proof -
  from bitlen_bounds[OF assms]
  have lo: "2 ^ nat (bitlen n - 1) \<le> n" and hi: "n < 2 ^ nat (bitlen n)" by simp_all
  have b1: "1 \<le> bitlen n"
    using assms bitlen_eq_zero_iff[of n] bitlen_nonneg[of n] by linarith
  have "(of_int (2 ^ nat (bitlen n - 1)) :: rat) \<le> of_int n"
    using lo by (simp only: of_int_le_iff)
  then show "(2::rat) powi (bitlen n - 1) \<le> of_int n" using b1 by (simp add: power_int_def)
  have "(of_int n :: rat) < of_int (2 ^ nat (bitlen n))"
    using hi by (simp only: of_int_less_iff)
  then show "of_int n < (2::rat) powi (bitlen n)" using b1 by (simp add: power_int_def)
qed

lemma bitlen_frac_bounds:
  assumes "0 < n" "0 < d"
  shows "(2::rat) powi (bitlen n - bitlen d - 1) < of_int n / of_int d"
    and "of_int n / of_int d < (2::rat) powi (bitlen n - bitlen d + 1)"
proof -
  note n = bitlen_powi_bounds[OF assms(1)] and d = bitlen_powi_bounds[OF assms(2)]
  have dpos: "(0::rat) < of_int d" and npos: "(0::rat) < of_int n" using assms by simp_all
  have "(2::rat) powi (bitlen n - bitlen d - 1) = 2 powi (bitlen n - 1) / 2 powi (bitlen d)"
    by (simp add: power_int_diff)
  also have "\<dots> \<le> of_int n / 2 powi (bitlen d)"
    using n(1) by (simp add: divide_right_mono)
  also have "\<dots> < of_int n / of_int d"
    using d(2) dpos npos by (simp add: divide_strict_left_mono)
  finally show "(2::rat) powi (bitlen n - bitlen d - 1) < of_int n / of_int d" .
  have "of_int n / of_int d < (2::rat) powi (bitlen n) / of_int d"
    using n(2) dpos by (simp add: divide_strict_right_mono)
  also have "\<dots> \<le> 2 powi (bitlen n) / 2 powi (bitlen d - 1)"
    using d(1) dpos by (simp add: divide_left_mono)
  also have "\<dots> = 2 powi (bitlen n - bitlen d + 1)"
    by (simp add: power_int_diff[symmetric] algebra_simps)
  finally show "of_int n / of_int d < (2::rat) powi (bitlen n - bitlen d + 1)" .
qed

text \<open>\<open>ilog2\<close> is the binary exponent: \<open>2^k \<le> q < 2^(k+1)\<close> gives \<open>ilog2 q = k\<close>.\<close>

lemma ilog2_eqI:
  assumes "2 powi k \<le> q" "q < 2 powi (k + 1)"
  shows "ilog2 q = k"
proof -
  obtain n d where nd: "quotient_of q = (n, d)" by (cases "quotient_of q")
  have qpos: "0 < q" using assms(1) by (rule less_le_trans[rotated]) simp
  have d: "0 < d" using quotient_of_denom_pos[OF nd] .
  have q: "q = of_int n / of_int d" using quotient_of_div[OF nd] .
  have n: "0 < n" using qpos d unfolding q by (simp add: zero_less_divide_iff)
  define k0 where "k0 = bitlen n - bitlen d"
  note b = bitlen_frac_bounds[OF n d, folded q k0_def]
  have il: "ilog2 q = (if 2 powi k0 \<le> q then k0 else k0 - 1)"
    by (simp add: ilog2_def nd k0_def)
  show ?thesis
  proof (cases "2 powi k0 \<le> q")
    case True
    then have "(2::rat) powi k0 < 2 powi (k + 1)" using assms(2) by simp
    moreover have "(2::rat) powi k < 2 powi (k0 + 1)" using assms(1) b(2) by simp
    ultimately show ?thesis using True il by (simp add: powi2_less_iff)
  next
    case False
    then have "(2::rat) powi k < 2 powi k0" using assms(1) by simp
    moreover have "(2::rat) powi (k0 - 1) < 2 powi (k + 1)" using assms(2) b(1) by simp
    ultimately show ?thesis using False il by (simp add: powi2_less_iff)
  qed
qed

lemma round_double_1: "round_double 1 = Finite 1"
  by (simp add: round_double_def ilog2_eqI[of 0] round_half_even_def Let_def)

lemma round_double_2: "round_double 2 = Finite 2"
  by (simp add: round_double_def ilog2_eqI[of 1] round_half_even_def Let_def)

lemma round_double_2_53: "round_double 9007199254740992 = Finite 9007199254740992"
  by (simp add: round_double_def ilog2_eqI[of 53] round_half_even_def Let_def)

text \<open>\<open>2^53 + 1\<close> lies halfway between two doubles and rounds to the even one, \<open>2^53\<close>.\<close>

lemma round_double_2_53_1: "round_double 9007199254740993 = Finite 9007199254740992"
  by (simp add: round_double_def ilog2_eqI[of 53] round_half_even_def Let_def
      floor_divide_of_int_eq[of 9007199254740993 2, simplified])

lemma round_double_2_53_2: "round_double 9007199254740994 = Finite 9007199254740994"
  by (simp add: round_double_def ilog2_eqI[of 53] round_half_even_def Let_def)

lemmas float_sums = plus_pyfloat_def zero_pyfloat_def less_eq_pyfloat_def
  round_double_1 round_double_2 round_double_2_53 round_double_2_53_1 round_double_2_53_2



lemmas run_defs = steps_def step_fast_def build_out_edges_def decide_def commit_def
  py_index_def enumerate_eq_zip


lemma upto_1_1: "[1..1] = [1::int]"
  by (simp add: upto.simps)

subsection \<open>Sums of whole numbers up to \<open>2^53\<close> do not round\<close>





















subsection \<open>The reader\<close>

lemma readline_header:
  "readline (drop k stdin) = (header stdin k, drop (Suc k) stdin)"
proof (cases "k < length stdin")
  case True
  then show ?thesis
    by (simp add: readline_def header_def Cons_nth_drop_Suc[symmetric])
next
  case False
  then show ?thesis by (simp add: readline_def header_def)
qed

lemma readline_0: "readline stdin = (header stdin 0, drop 1 stdin)"
  using readline_header[of 0 stdin] by simp

lemma header_drop: "header (drop k stdin) j = header stdin (k + j)"
  by (auto simp: header_def)

lemma read_stdin_case_unfold:
  "read_stdin_case B stdin =
     (case int_of B (strip_of B (header stdin 0)) of
        None \<Rightarrow> Inl ValueError
      | Some M \<Rightarrow>
     (case parse_all (int_of B) (split_of B (header stdin 1)) of
        Inl e \<Rightarrow> Inl e
      | Inr s \<Rightarrow>
     (case parse_all (float_of B) (split_of B (header stdin 2)) of
        Inl e \<Rightarrow> Inl e
      | Inr X \<Rightarrow>
     (case int_of B (strip_of B (header stdin 3)) of
        None \<Rightarrow> Inl ValueError
      | Some N \<Rightarrow>
     (case read_edges B [] (drop 4 stdin) of
        Inl e \<Rightarrow> Inl e
      | Inr connections \<Rightarrow>
     (case make_neurons M s X of
        Inl e \<Rightarrow> Inl e
      | Inr neurons \<Rightarrow> Inr (neurons, connections, N)))))))"
  unfolding read_stdin_case_def
  by (simp add: readline_0 header_drop eval_nat_numeral cong: option.case_cong sum.case_cong)

lemma parse_all_Inl_iff: "(\<exists>e. parse_all f ts = Inl e) \<longleftrightarrow> list_ex (\<lambda>t. f t = None) ts"
  by (induction ts) (auto split: option.splits sum.splits)

lemma parse_all_length: "parse_all f ts = Inr xs \<Longrightarrow> length xs = length ts"
  by (induction ts arbitrary: xs) (auto split: option.splits sum.splits)

lemma read_edges_Inl_iff:
  "(\<exists>e. read_edges B acc ls = Inl e) \<longleftrightarrow>
   list_ex (bad_edge_line B) (takeWhile (\<lambda>l. strip_of B l \<noteq> ''E'') ls)"
proof (induction ls arbitrary: acc)
  case Nil
  then show ?case by simp
next
  case (Cons l ls)
  show ?case
    using Cons.IH
    by (auto simp: bad_edge_line_def Let_def split: list.splits option.splits)
qed

lemma read_stdin_case_Inl_iff:
  "(\<exists>e. read_stdin_case B stdin = Inl e) \<longleftrightarrow> malformed B stdin"
proof (cases "int_of B (strip_of B (header stdin 0))")
  case None
  then show ?thesis by (simp add: read_stdin_case_unfold malformed_def)
next
  case M: (Some M)
  show ?thesis
  proof (cases "parse_all (int_of B) (split_of B (header stdin 1))")
    case (Inl e)
    then have "list_ex (\<lambda>t. int_of B t = None) (split_of B (header stdin 1))"
      using parse_all_Inl_iff[of "int_of B"] by blast
    then show ?thesis using Inl M by (simp add: read_stdin_case_unfold malformed_def)
  next
    case s: (Inr s)
    then have s1: "\<not> list_ex (\<lambda>t. int_of B t = None) (split_of B (header stdin 1))"
      using parse_all_Inl_iff[of "int_of B" "split_of B (header stdin 1)"] by simp
    have ls: "length s = length (split_of B (header stdin 1))"
      by (rule parse_all_length[OF s])
    show ?thesis
    proof (cases "parse_all (float_of B) (split_of B (header stdin 2))")
      case (Inl e)
      then have "list_ex (\<lambda>t. float_of B t = None) (split_of B (header stdin 2))"
        using parse_all_Inl_iff[of "float_of B"] by blast
      then show ?thesis using Inl M s by (simp add: read_stdin_case_unfold malformed_def)
    next
      case X: (Inr X)
      then have X1: "\<not> list_ex (\<lambda>t. float_of B t = None) (split_of B (header stdin 2))"
        using parse_all_Inl_iff[of "float_of B" "split_of B (header stdin 2)"] by simp
      have lX: "length X = length (split_of B (header stdin 2))"
        by (rule parse_all_length[OF X])
      show ?thesis
      proof (cases "int_of B (strip_of B (header stdin 3))")
        case None
        then show ?thesis using M s X by (simp add: read_stdin_case_unfold malformed_def)
      next
        case N: (Some N)
        show ?thesis
        proof (cases "read_edges B [] (drop 4 stdin)")
          case (Inl e)
          then have "list_ex (bad_edge_line B) (edge_lines B stdin)"
            using read_edges_Inl_iff[of B "[]" "drop 4 stdin"] by (auto simp: edge_lines_def)
          then show ?thesis using Inl M s X N
            by (simp add: read_stdin_case_unfold malformed_def)
        next
          case es: (Inr es)
          then have e1: "\<not> list_ex (bad_edge_line B) (edge_lines B stdin)"
            using read_edges_Inl_iff[of B "[]" "drop 4 stdin"] by (auto simp: edge_lines_def)
          show ?thesis using M s X N es s1 X1 e1 ls lX
            by (auto simp: read_stdin_case_unfold malformed_def make_neurons_def)
        qed
      qed
    qed
  qed
qed

lemmas ascii_defs = ascii_builtins_def ascii_int_def int_literal_float_def ascii_strip_def
  ascii_split_def isspace_def digit_val_def

lemma ascii_int_0: "ascii_int ''0'' = Some 0"
  by (simp add: ascii_defs)

lemma ascii_int_1: "ascii_int ''1'' = Some 1"
  by (simp add: ascii_defs)

lemma int_literal_float_0: "int_literal_float ''0'' = Some (Finite 0)"
  by (simp add: int_literal_float_def ascii_int_0 round_double_def)

lemma int_literal_float_1: "int_literal_float ''1'' = Some (Finite 1)"
  by (simp add: int_literal_float_def ascii_int_1 round_double_1)

lemmas ascii_evals = ascii_builtins_def ascii_strip_def ascii_split_def isspace_def
  ascii_int_0 ascii_int_1 int_literal_float_0 int_literal_float_1

section \<open>The claims\<close>




text \<open>
  C2.  One baseline tick gives neuron \<open>i\<close> the sum, from zero and in input order, of the
  weights of the edges \<open>(a, b, w)\<close> with \<open>b - 1 = i\<close> whose source is active, and sets its
  next state to 1 exactly when that sum is at least its threshold; all next states are
  computed from the states before the tick and committed together.  This holds for edge
  lists whose endpoints lie in \<open>1 .. M\<close>, in any arithmetic, floats included.
\<close>

theorem steps_applies_threshold_rule:
  fixes neurons :: "'w::{zero,plus,ord} neuron list"
  assumes "valid_edges (length neurons) connections"
  shows "steps neurons connections
           = (commit neurons (tick_spec neurons connections), Inr (tick_spec neurons connections))
       \<and> map state (commit neurons (tick_spec neurons connections)) = tick_spec neurons connections"
proof -
  have "length (tick_spec neurons connections) = length neurons" by (simp add: tick_spec_def)
  then show ?thesis using steps_valid[OF assms] by simp
qed

theorem steps_applies_threshold_rule_witness:
  "valid_edges (length lone_neuron) [(1, 1, Finite 1)]
   \<and> steps lone_neuron [(1, 1, Finite 1)]
       = ([\<lparr>nid = 1, state = 1, threshold = Finite 1\<rparr>], Inr [1])"
proof -
  have v: "valid_edges (length lone_neuron) [(1, 1, Finite 1)]"
    by (simp add: valid_edges_def lone_neuron_def)
  have "tick_spec lone_neuron [(1, 1, Finite 1)] = [1]"
    by (simp add: tick_spec_def received_spec_def active_inflow_def lone_neuron_def float_sums)
  with v steps_applies_threshold_rule[OF v] show ?thesis
    by (simp add: commit_def lone_neuron_def)
qed

text \<open>
  Without the restriction the claim fails: an edge with destination id 0 is written to
  \<open>received[-1]\<close>, the last neuron, which no edge with \<open>b - 1 = i\<close> accounts for.
\<close>

theorem destination_zero_wraps_around:
  "snd (steps lone_neuron [(1, 0, Finite 1)]) = Inr [1]
   \<and> tick_spec lone_neuron [(1, 0, Finite 1)] = [0]"
  by (simp add: steps_def decide_def commit_def py_index_def tick_spec_def received_spec_def
      active_inflow_def lone_neuron_def float_sums)

text \<open>
  C3.  For edges with endpoints in \<open>1 .. M\<close>, \<open>build_out_edges\<close> returns \<open>M\<close> rows; in row \<open>u\<close>
  every destination index occurs at most once, it occurs exactly when some edge goes from
  \<open>u\<close> to it, and its weight is the sum (from zero, in input order) of the weights of all
  edges \<open>(a, b, w)\<close> with \<open>a - 1 = u\<close> and \<open>b - 1\<close> that destination.
\<close>

theorem build_out_edges_aggregates:
  fixes connections :: "'w::{zero,plus} edge list"
  assumes "valid_edges M connections"
  shows "\<exists>out_edges. build_out_edges (int M) connections = Inr out_edges
       \<and> length out_edges = M
       \<and> (\<forall>u < M. distinct (map fst (out_edges ! u))
            \<and> (\<forall>(v, x) \<in> set (out_edges ! u). x = foldl (+) 0 (edge_weights connections u v))
            \<and> (\<forall>v. v \<in> fst ` set (out_edges ! u) \<longleftrightarrow> edge_weights connections u v \<noteq> []))"
proof -
  from build_out_edges_aggregated[OF assms] obtain oe
    where oe: "build_out_edges (int M) connections = Inr oe"
      and len: "length oe = M" and ag: "aggregated oe connections"
    by blast
  have "distinct (map fst (oe ! u))
      \<and> (\<forall>(v, x) \<in> set (oe ! u). x = foldl (+) 0 (edge_weights connections u v))
      \<and> (\<forall>v. v \<in> fst ` set (oe ! u) \<longleftrightarrow> edge_weights connections u v \<noteq> [])"
    if u: "u < M" for u
  proof (intro conjI)
    from ag u len show "distinct (map fst (oe ! u))" by (simp add: aggregated_def)
    show "\<forall>(v, x) \<in> set (oe ! u). x = foldl (+) 0 (edge_weights connections u v)"
      using aggregated_entry[OF ag] u len by auto
    show "\<forall>v. v \<in> fst ` set (oe ! u) \<longleftrightarrow> edge_weights connections u v \<noteq> []"
    proof
      fix v
      have "map_of (oe ! u) v = aggregate_of connections u v"
        using ag u len by (simp add: aggregated_def)
      moreover have "map_of (oe ! u) v = None \<longleftrightarrow> v \<notin> fst ` set (oe ! u)"
        by (rule map_of_eq_None_iff)
      ultimately show "v \<in> fst ` set (oe ! u) \<longleftrightarrow> edge_weights connections u v \<noteq> []"
        by (cases "edge_weights connections u v = []") (simp_all add: aggregate_of_def)
    qed
  qed
  with oe len show ?thesis by blast
qed

theorem build_out_edges_aggregates_witness:
  "valid_edges 2 [(1, 2, 5), (2, 1, 7), (1, 2, 3::int)]
   \<and> build_out_edges 2 [(1, 2, 5), (2, 1, 7), (1, 2, 3::int)] = Inr [[(1, 8)], [(0, 7)]]
   \<and> edge_weights [(1, 2, 5), (2, 1, 7), (1, 2, 3::int)] 0 1 = [5, 3]"
proof -
  have v: "valid_edges 2 [(1, 2, 5), (2, 1, 7), (1, 2, 3::int)]"
    by (simp add: valid_edges_def)
  from build_out_edges_aggregates[OF v]
  have "\<exists>oe. build_out_edges (int 2) [(1, 2, 5), (2, 1, 7), (1, 2, 3::int)] = Inr oe" by blast
  moreover have "build_out_edges 2 [(1, 2, 5), (2, 1, 7), (1, 2, 3::int)]
      = Inr [[(1, 8)], [(0, 7)]]"
    by (simp add: build_out_edges_def py_index_def numeral_2_eq_2)
  ultimately show ?thesis using v by (simp add: edge_weights_def)
qed

text \<open>
  C4.  A neuron with state 0 contributes no signal, whatever its outgoing weights: one
  baseline tick is unchanged when the edges whose source has state 0 are removed, and one
  fast tick is unchanged when the adjacency rows of the sources with state 0 are emptied.
  Both hold for every input, also where the tick raises.
\<close>

theorem inactive_sources_contribute_nothing:
  "steps neurons (without_inactive neurons connections) = steps neurons connections
   \<and> step_fast neurons (clear_inactive neurons out_edges) = step_fast neurons out_edges"
  by (simp add: steps_def step_fast_def send_without_inactive
      receive_fast_clear_inactive[OF enumerate_neurons])

text \<open>
  C5.  With \<open>N = 0\<close> no tick is performed.  \<open>simulate_N\<close> then returns the initial state
  vector for every edge list.  \<open>simulate_fast\<close> first builds the adjacency, so it returns the
  initial state vector exactly when every source id \<open>a\<close> is a valid subscript \<open>a - 1\<close> of the
  neuron list, in particular when all source ids lie in \<open>1 .. M\<close>.
\<close>

theorem zero_ticks_return_initial_states:
  "simulate_N neurons connections 0 debug_every = (neurons, [], Inr (map state neurons))
   \<and> (simulate_fast neurons connections 0 debug_every = (neurons, [], Inr (map state neurons))
        \<longleftrightarrow> list_all (\<lambda>(a, b, w). - int (length neurons) \<le> a - 1
                         \<and> a - 1 < int (length neurons)) connections)"
proof -
  have base: "simulate_N neurons connections 0 debug_every
      = (neurons, [], Inr (map state neurons))"
    by (simp add: simulate_N_def)
  have ok: "(\<exists>oe. build_out_edges (int (length neurons)) connections = Inr oe)
      \<longleftrightarrow> list_all (\<lambda>(a, b, w). - int (length neurons) \<le> a - 1
                         \<and> a - 1 < int (length neurons)) connections"
    using build_loop_ok_iff[of "replicate (length neurons) []" connections]
    by (simp add: build_out_edges_def list_all_iff)
  have "simulate_fast neurons connections 0 debug_every = (neurons, [], Inr (map state neurons))
      \<longleftrightarrow> (\<exists>oe. build_out_edges (int (length neurons)) connections = Inr oe)"
    by (cases "build_out_edges (int (length neurons)) connections")
       (simp_all add: simulate_fast_def)
  with base ok show ?thesis by simp
qed

theorem zero_ticks_return_initial_states_witness:
  "list_all (\<lambda>(a, b, w). - int (length race_neurons) \<le> a - 1
                \<and> a - 1 < int (length race_neurons)) race_edges
   \<and> simulate_N race_neurons race_edges 0 None = (race_neurons, [], Inr [1, 1])
   \<and> simulate_fast race_neurons race_edges 0 None = (race_neurons, [], Inr [1, 1])"
proof -
  have v: "list_all (\<lambda>(a, b, w). - int (length race_neurons) \<le> a - 1
                \<and> a - 1 < int (length race_neurons)) race_edges"
    by (simp add: race_neurons_def race_edges_def)
  have s: "map state race_neurons = [1, 1]" by (simp add: race_neurons_def)
  from zero_ticks_return_initial_states[of race_neurons race_edges None] v s
  show ?thesis by simp
qed

text \<open>
  As stated for every edge list the claim fails for \<open>simulate_fast\<close>: a source id beyond
  the neuron count makes \<open>build_out_edges\<close> raise before the loop is reached.
\<close>

theorem zero_ticks_fast_raises_on_bad_source:
  "snd (snd (simulate_fast idle_neuron [(2, 1, Finite 1)] 0 None)) = Inl IndexError
   \<and> snd (snd (simulate_N idle_neuron [(2, 1, Finite 1)] 0 None)) = Inr [0]"
  by (simp add: simulate_fast_def simulate_N_def build_out_edges_def py_index_def idle_neuron_def)

text \<open>
  C6.  Every tick and every run leaves the \<open>threshold\<close> and \<open>id\<close> of each neuron, and the
  number of neurons, as they were; only \<open>state\<close> is written.  This covers the runs that end
  in an exception.
\<close>

theorem threshold_and_id_are_never_modified:
  "map threshold (fst (steps neurons connections)) = map threshold neurons
   \<and> map nid (fst (steps neurons connections)) = map nid neurons
   \<and> length (fst (steps neurons connections)) = length neurons
   \<and> map threshold (fst (step_fast neurons out_edges)) = map threshold neurons
   \<and> map nid (fst (step_fast neurons out_edges)) = map nid neurons
   \<and> length (fst (step_fast neurons out_edges)) = length neurons
   \<and> map threshold (fst (simulate_N neurons connections N debug_every)) = map threshold neurons
   \<and> map nid (fst (simulate_N neurons connections N debug_every)) = map nid neurons
   \<and> length (fst (simulate_N neurons connections N debug_every)) = length neurons
   \<and> map threshold (fst (simulate_fast neurons connections N debug_every)) = map threshold neurons
   \<and> map nid (fst (simulate_fast neurons connections N debug_every)) = map nid neurons
   \<and> length (fst (simulate_fast neurons connections N debug_every)) = length neurons"
proof -
  have base: "map threshold (fst (simulate_N neurons connections N debug_every))
        = map threshold neurons
      \<and> map nid (fst (simulate_N neurons connections N debug_every)) = map nid neurons
      \<and> length (fst (simulate_N neurons connections N debug_every)) = length neurons"
    using ticks_frame[of "\<lambda>ns. steps ns connections" debug_every neurons "[]" "[1..N]",
        OF steps_frame]
    by (simp add: simulate_N_alt Let_def)
  have fast: "map threshold (fst (simulate_fast neurons connections N debug_every))
        = map threshold neurons
      \<and> map nid (fst (simulate_fast neurons connections N debug_every)) = map nid neurons
      \<and> length (fst (simulate_fast neurons connections N debug_every)) = length neurons"
  proof (cases "build_out_edges (int (length neurons)) connections")
    case (Inl e)
    then show ?thesis by (simp add: simulate_fast_build_error)
  next
    case (Inr oe)
    show ?thesis
      using ticks_frame[of "\<lambda>ns. step_fast ns oe" debug_every neurons "[]" "[1..N]",
          OF step_fast_frame]
      by (simp add: simulate_fast_alt[OF Inr] Let_def)
  qed
  from base fast steps_frame[of neurons connections] step_fast_frame[of neurons out_edges]
  show ?thesis by simp
qed

text \<open>
  C7.  Malformed input is fatal: the reader raises, and the entry points raise the same
  exception without starting a simulation.  The reader raises exactly when the \<open>M\<close> or \<open>N\<close>
  line is not an integer, a state or threshold token is not numeric, there are fewer than
  \<open>M\<close> states or thresholds, or an edge record before the terminator (a non-blank line
  other than \<open>'E'\<close>) is not three tokens \<open>a b w\<close> with integers \<open>a\<close>, \<open>b\<close> and a number \<open>w\<close>.
  Surplus states or thresholds are ignored, and the edge records may end with the input
  instead of with \<open>'E'\<close>.
\<close>

theorem malformed_input_is_fatal:
  fixes B :: "'w::{zero,plus,ord} builtins"
  shows "(malformed B stdin \<longleftrightarrow> (\<exists>e. read_stdin_case B stdin = Inl e))
       \<and> (read_stdin_case B stdin = Inl e \<longrightarrow>
            solve_stdin B stdin = Inl e \<and> solve_stdin_fast B stdin = Inl e
            \<and> verify_stdin B stdin = Inl e)"
  using read_stdin_case_Inl_iff[of B stdin]
  by (simp add: solve_stdin_def solve_stdin_fast_def verify_stdin_def)

theorem malformed_input_is_fatal_witness:
  "malformed ascii_builtins [''1'', ''0'', ''0'', ''1'', ''1 1'', ''E'']
   \<and> read_stdin_case ascii_builtins [''1'', ''0'', ''0'', ''1'', ''1 1'', ''E''] = Inl ValueError
   \<and> solve_stdin ascii_builtins [''1'', ''0'', ''0'', ''1'', ''1 1'', ''E''] = Inl ValueError"
proof -
  have r: "read_stdin_case ascii_builtins [''1'', ''0'', ''0'', ''1'', ''1 1'', ''E'']
      = Inl ValueError"
    by (simp add: read_stdin_case_unfold header_def ascii_evals)
  from malformed_input_is_fatal[of ascii_builtins "[''1'', ''0'', ''0'', ''1'', ''1 1'', ''E'']"
      ValueError] r
  show ?thesis by auto
qed

text \<open>
  As stated the claim fails for the missing terminator (and for surplus tokens): a case
  whose edge records simply end is read and simulated; so is one with three states for
  one neuron.
\<close>

theorem missing_terminator_is_accepted:
  "read_stdin_case ascii_builtins [''1'', ''0'', ''0'', ''1'', ''1 1 1'']
     = Inr ([\<lparr>nid = 1, state = 0, threshold = Finite 0\<rparr>], [(1, 1, Finite 1)], 1)
   \<and> solve_stdin ascii_builtins [''1'', ''0'', ''0'', ''1'', ''1 1 1''] = Inr [1]
   \<and> read_stdin_case ascii_builtins [''1'', ''0 1 1'', ''0'', ''1'', ''E'']
     = Inr ([\<lparr>nid = 1, state = 0, threshold = Finite 0\<rparr>], [], 1)"
  by (simp add: solve_stdin_def read_stdin_case_unfold header_def make_neurons_def ascii_evals
      simulate_N_def run_defs upto_1_1 float_sums)

text \<open>
  C8.  Periodic snapshots do not alter the simulation: for any two settings of
  \<open>debug_every\<close> that are \<open>None\<close> or a non-zero integer, \<open>simulate_N\<close> leaves the same neurons
  and returns the same outcome, and so does \<open>simulate_fast\<close>.
\<close>

theorem snapshots_do_not_alter_results:
  assumes "d1 \<noteq> Some 0" "d2 \<noteq> Some 0"
  shows "fst (simulate_N neurons connections N d1) = fst (simulate_N neurons connections N d2)
       \<and> snd (snd (simulate_N neurons connections N d1))
           = snd (snd (simulate_N neurons connections N d2))
       \<and> fst (simulate_fast neurons connections N d1)
           = fst (simulate_fast neurons connections N d2)
       \<and> snd (snd (simulate_fast neurons connections N d1))
           = snd (snd (simulate_fast neurons connections N d2))"
proof -
  have base: "fst (simulate_N neurons connections N d)
        = fst (simulate_N neurons connections N None)
      \<and> snd (snd (simulate_N neurons connections N d))
        = snd (snd (simulate_N neurons connections N None))"
    if "d \<noteq> Some 0" for d
    using ticks_debug_every[OF that, of "\<lambda>ns. steps ns connections" neurons "[]" "[1..N]"]
    by (simp add: simulate_N_alt Let_def)
  have fast: "fst (simulate_fast neurons connections N d)
        = fst (simulate_fast neurons connections N None)
      \<and> snd (snd (simulate_fast neurons connections N d))
        = snd (snd (simulate_fast neurons connections N None))"
    if "d \<noteq> Some 0" for d
  proof (cases "build_out_edges (int (length neurons)) connections")
    case (Inl e)
    then show ?thesis by (simp add: simulate_fast_build_error)
  next
    case (Inr oe)
    show ?thesis
      using ticks_debug_every[OF that, of "\<lambda>ns. step_fast ns oe" neurons "[]" "[1..N]"]
      by (simp add: simulate_fast_alt[OF Inr] Let_def)
  qed
  from base[OF assms(1)] base[OF assms(2)] fast[OF assms(1)] fast[OF assms(2)]
  show ?thesis by simp
qed

theorem snapshots_do_not_alter_results_witness:
  "Some 1 \<noteq> Some (0::int) \<and> None \<noteq> Some (0::int)
   \<and> snd (snd (simulate_N idle_neuron [] 1 (Some 1))) = Inr [1]
   \<and> snd (snd (simulate_N idle_neuron [] 1 None)) = Inr [1]
   \<and> fst (snd (simulate_N idle_neuron [] 1 (Some 1))) = [(1, [1])]
   \<and> snd (snd (simulate_fast idle_neuron [] 1 (Some 1)))
       = snd (snd (simulate_fast idle_neuron [] 1 None))"
proof -
  have a: "Some 1 \<noteq> Some (0::int)" and b: "None \<noteq> Some (0::int)" by simp_all
  have "snd (snd (simulate_N idle_neuron [] 1 None)) = Inr [1]"
    and "fst (snd (simulate_N idle_neuron [] 1 (Some 1))) = [(1, [1])]"
    by (simp_all add: simulate_N_def run_defs upto_1_1 idle_neuron_def float_sums)
  with snapshots_do_not_alter_results[OF a b, of idle_neuron "[]" 1] show ?thesis by simp
qed

text \<open>
  The claim fails for \<open>debug_every = 0\<close>: the test \<open>t % debug_every\<close> then raises
  \<open>ZeroDivisionError\<close> after the first tick, and nothing is returned.
\<close>

theorem debug_every_zero_raises:
  "snd (snd (simulate_N idle_neuron [] 1 (Some 0))) = Inl ZeroDivisionError
   \<and> snd (snd (simulate_N idle_neuron [] 1 None)) = Inr [1]"
  by (simp add: simulate_N_def run_defs upto_1_1 idle_neuron_def float_sums)

text \<open>
  C9.  After a tick of \<open>steps\<close> or of \<open>step_fast\<close>, the returned list is the committed state
  vector and each of its entries is 0 or 1, whatever integers the states were before.
\<close>

theorem tick_makes_states_binary:
  "(steps neurons connections = (neurons', Inr out) \<longrightarrow>
      set out \<subseteq> {0, 1} \<and> map state neurons' = out \<and> length out = length neurons)
   \<and> (step_fast neurons out_edges = (neurons'', Inr out') \<longrightarrow>
      set out' \<subseteq> {0, 1} \<and> map state neurons'' = out' \<and> length out' = length neurons)"
  using steps_result[of neurons connections neurons' out]
    step_fast_result[of neurons out_edges neurons'' out']
  by blast

theorem tick_makes_states_binary_witness:
  "steps [\<lparr>nid = 1, state = 5, threshold = Finite 1\<rparr>] []
     = ([\<lparr>nid = 1, state = 0, threshold = Finite 1\<rparr>], Inr [0])
   \<and> step_fast [\<lparr>nid = 1, state = 5, threshold = Finite 1\<rparr>] [[]]
     = ([\<lparr>nid = 1, state = 0, threshold = Finite 1\<rparr>], Inr [0])
   \<and> set [0::int] \<subseteq> {0, 1}"
proof -
  have s: "steps [\<lparr>nid = 1, state = 5, threshold = Finite 1\<rparr>] []
      = ([\<lparr>nid = 1, state = 0, threshold = Finite 1\<rparr>], Inr [0])"
    and f: "step_fast [\<lparr>nid = 1, state = 5, threshold = Finite 1\<rparr>] [[]]
      = ([\<lparr>nid = 1, state = 0, threshold = Finite 1\<rparr>], Inr [0])"
    by (simp_all add: run_defs float_sums)
  from tick_makes_states_binary[of "[\<lparr>nid = 1, state = 5, threshold = Finite 1\<rparr>]" "[]"
      "[\<lparr>nid = 1, state = 0, threshold = Finite 1\<rparr>]" "[0]" "[[]]"
      "[\<lparr>nid = 1, state = 0, threshold = Finite 1\<rparr>]" "[0]"] s f
  show ?thesis by simp
qed



end
